theory Spec2Isabelle
  imports Main
begin

section \<open>The camera page of the photobooth: data\<close>

text \<open>
  The model follows the component \<open>CameraPage\<close> in its version with multi-photo capture
  (\<open>takePicture\<close>, \<open>captureMultiplePhotos\<close>, \<open>capturePhoto\<close>, \<open>downloadPhoto\<close> and the
  controls that call them); line numbers refer to that file. The three selector types are
  string-literal unions in the source; here they are datatypes.
\<close>

datatype FilterType = FNone | Grayscale | Sepia | Invert | Blur | Contrast

datatype TimerType = Off | T3 | T5 | T10

datatype PhotoCountType = P1 | P2 | P3 | P4

text \<open>
  The \<open>video\<close> element as \<open>takePicture\<close> reads it: its intrinsic size and the frame it
  shows at that instant (an identifier of the pixel content).
\<close>

record video =
  videoWidth :: nat
  videoHeight :: nat
  pixels :: nat

text \<open>The hidden canvas: \<open>getContext('2d')\<close> yields a context or \<open>null\<close>.\<close>

record canvas =
  has2d :: bool

text \<open>
  The two refs. \<open>None\<close> is \<open>ref.current === null\<close>: the element is not mounted.
  Refs are shared by all renders, so they are read at call time.
\<close>

record dom =
  videoRef :: "video option"
  canvasRef :: "canvas option"

text \<open>
  What \<open>canvas.toDataURL('image/png')\<close> encodes: a canvas of the video's size on which the
  current frame was drawn through the filter. A data URL is never the empty string, so
  an image is always truthy in \<open>if (image)\<close>.
\<close>

datatype image = DataURL nat nat FilterType nat

fun image_filter :: "image \<Rightarrow> FilterType" where
  "image_filter (DataURL w h f p) = f"

fun image_pixels :: "image \<Rightarrow> nat" where
  "image_pixels (DataURL w h f p) = p"

text \<open>The component's state: one field for each \<open>useState\<close> the sequencing code touches.\<close>

record state =
  filter_sel :: FilterType
  timer :: TimerType
  photoCount :: PhotoCountType
  countdown :: "int option"
  capturedImages :: "image list"
  currentPhotoIndex :: nat
  isCapturing :: bool
  showFlash :: bool

text \<open>
  Each render of the component binds \<open>filter\<close>, \<open>timer\<close> and \<open>photoCount\<close> as constants and
  creates \<open>takePicture\<close>, \<open>captureMultiplePhotos\<close> and \<open>capturePhoto\<close> closed over them.
  A click runs the handler of the render that is current at the click, and an
  asynchronous call that is suspended keeps the bindings of the render that created it.
\<close>

record closure =
  cl_filter :: FilterType
  cl_timer :: TimerType
  cl_photoCount :: PhotoCountType

definition render :: "state \<Rightarrow> closure" where
  "render s = \<lparr>cl_filter = filter_sel s, cl_timer = timer s, cl_photoCount = photoCount s\<rparr>"

section \<open>What a run does: state writes, captures and task boundaries\<close>

text \<open>
  A run is described by the sequence of things it does. \<open>Tick\<close> marks the start of an
  interval callback, that is, of a new task of the event loop: everything between two
  ticks runs without interruption (the continuation after \<open>await\<close> is a microtask of the
  task whose callback called \<open>resolve\<close>). \<open>TakePicture r\<close> is a call of \<open>takePicture\<close> that
  returned \<open>r\<close> (\<open>None\<close> is \<open>undefined\<close>).
\<close>

datatype action =
    SetIsCapturing bool
  | SetCurrentPhotoIndex nat
  | SetCountdown "int option"
  | SetShowFlash bool
  | SetCapturedImages "image list"
  | TakePicture "image option"
  | Tick

fun apply_action :: "action \<Rightarrow> state \<Rightarrow> state" where
  "apply_action (SetIsCapturing b) s = s\<lparr>isCapturing := b\<rparr>"
| "apply_action (SetCurrentPhotoIndex n) s = s\<lparr>currentPhotoIndex := n\<rparr>"
| "apply_action (SetCountdown c) s = s\<lparr>countdown := c\<rparr>"
| "apply_action (SetShowFlash b) s = s\<lparr>showFlash := b\<rparr>"
| "apply_action (SetCapturedImages imgs) s = s\<lparr>capturedImages := imgs\<rparr>"
| "apply_action (TakePicture r) s = s"
| "apply_action Tick s = s"

fun exec :: "state \<Rightarrow> action list \<Rightarrow> state" where
  "exec s [] = s"
| "exec s (a # as) = exec (apply_action a s) as"

section \<open>The operations\<close>

text \<open>\<open>parseInt\<close> on the selector values. \<open>parseInt('off')\<close> is \<open>NaN\<close>; the source
  never evaluates it (line 87 guards it), and the model gives it no equation.\<close>

fun parseInt_timer :: "TimerType \<Rightarrow> int" where
  "parseInt_timer T3 = 3"
| "parseInt_timer T5 = 5"
| "parseInt_timer T10 = 10"

fun parseInt_photoCount :: "PhotoCountType \<Rightarrow> nat" where
  "parseInt_photoCount P1 = 1"
| "parseInt_photoCount P2 = 2"
| "parseInt_photoCount P3 = 3"
| "parseInt_photoCount P4 = 4"

text \<open>
  \<open>takePicture\<close> (lines 53-78): the state writes it makes and the value it returns. The
  timeout that clears the flash 200 ms later is a task of its own that writes only
  \<open>showFlash\<close>; it is not part of the run.
\<close>

definition takePicture :: "FilterType \<Rightarrow> dom \<Rightarrow> action list \<times> image option" where
  "takePicture flt d =
     (case videoRef d of
        None \<Rightarrow> ([], None)
      | Some v \<Rightarrow>
          (case canvasRef d of
             None \<Rightarrow> ([], None)
           | Some c \<Rightarrow>
               if \<not> has2d c then ([], None)
               else ([SetShowFlash True],
                     Some (DataURL (videoWidth v) (videoHeight v) flt (pixels v)))))"

text \<open>
  The interval callback of lines 93-102, from the first firing to the one that resolves
  the promise. The argument is the value of \<open>remaining\<close> before the callback runs.
\<close>

function interval :: "int \<Rightarrow> action list" where
  "interval remaining =
     Tick # SetCountdown (Some (remaining - 1)) #
       (if remaining - 1 \<le> 0 then [SetCountdown None] else interval (remaining - 1))"
  by pat_completeness auto
termination
  by (relation "measure nat") auto

text \<open>Lines 86-104: the countdown before one photo.\<close>

definition wait_timer :: "TimerType \<Rightarrow> action list" where
  "wait_timer t =
     (if t \<noteq> Off then SetCountdown (Some (parseInt_timer t)) # interval (parseInt_timer t)
      else [])"

text \<open>Lines 108-110: \<open>if (image) images.push(image)\<close>.\<close>

fun push_image :: "image list \<Rightarrow> image option \<Rightarrow> image list" where
  "push_image images None = images"
| "push_image images (Some img) = images @ [img]"

text \<open>
  The loop of \<open>captureMultiplePhotos\<close> (lines 83-111) from index \<open>i\<close> with the images
  collected so far, followed by lines 113-116. \<open>env i\<close> is the DOM at the moment of the
  call of \<open>takePicture\<close> in iteration \<open>i\<close>.
\<close>

function captureLoop ::
  "closure \<Rightarrow> (nat \<Rightarrow> dom) \<Rightarrow> nat \<Rightarrow> nat \<Rightarrow> image list \<Rightarrow> action list" where
  "captureLoop c env count i images =
     (if i < count then
        SetCurrentPhotoIndex (i + 1) # wait_timer (cl_timer c)
          @ fst (takePicture (cl_filter c) (env i))
          @ TakePicture (snd (takePicture (cl_filter c) (env i)))
          # captureLoop c env count (i + 1)
              (push_image images (snd (takePicture (cl_filter c) (env i))))
      else [SetCapturedImages images, SetIsCapturing False,
            SetCurrentPhotoIndex 0, SetCountdown None])"
  by pat_completeness auto
termination
  by (relation "measure (\<lambda>(c, env, count, i, images). count - i)") auto

definition captureMultiplePhotos :: "closure \<Rightarrow> (nat \<Rightarrow> dom) \<Rightarrow> nat \<Rightarrow> action list" where
  "captureMultiplePhotos c env count = captureLoop c env count 0 []"

text \<open>\<open>capturePhoto\<close> (lines 119-123). It has no guard of its own.\<close>

definition capturePhoto :: "closure \<Rightarrow> (nat \<Rightarrow> dom) \<Rightarrow> action list" where
  "capturePhoto c env =
     SetIsCapturing True # captureMultiplePhotos c env (parseInt_photoCount (cl_photoCount c))"

text \<open>
  The capture button (lines 263-270): it is rendered while no batch is shown, it is
  disabled while \<open>isCapturing\<close>, and its \<open>onClick\<close> is \<open>capturePhoto\<close> of the current render.
  A click on a button that is absent or disabled runs no handler.
\<close>

definition capture_button :: "(nat \<Rightarrow> dom) \<Rightarrow> state \<Rightarrow> action list" where
  "capture_button env s =
     (if capturedImages s = [] \<and> \<not> isCapturing s then capturePhoto (render s) env else [])"


text \<open>The \<open>onChange\<close> handlers of the three selectors (lines 215, 229, 242).\<close>

datatype selector_event =
    SelectFilter FilterType
  | SelectTimer TimerType
  | SelectPhotoCount PhotoCountType

fun select :: "selector_event \<Rightarrow> state \<Rightarrow> state" where
  "select (SelectFilter f) s = s\<lparr>filter_sel := f\<rparr>"
| "select (SelectTimer t) s = s\<lparr>timer := t\<rparr>"
| "select (SelectPhotoCount p) s = s\<lparr>photoCount := p\<rparr>"

fun selects :: "state \<Rightarrow> selector_event list \<Rightarrow> state" where
  "selects s [] = s"
| "selects s (e # es) = selects (select e s) es"

text \<open>The initial values of the \<open>useState\<close> calls (lines 16-23).\<close>

definition initial_state :: state where
  "initial_state =
     \<lparr>filter_sel = FNone, timer = Off, photoCount = P1, countdown = None,
      capturedImages = [], currentPhotoIndex = 0, isCapturing = False, showFlash = False\<rparr>"

section \<open>Observing a run\<close>

text \<open>
  The states that can be seen: the state at the end of each task of the run, that is,
  when the next tick starts and when the run has ended.
\<close>

fun observe :: "state \<Rightarrow> action list \<Rightarrow> state list" where
  "observe s [] = [s]"
| "observe s (a # as) = (if a = Tick then [s] else []) @ observe (apply_action a s) as"

text \<open>
  The same with selector changes between the tasks: the first list of \<open>ess\<close> are the
  selections made before the first tick, and so on.
\<close>

fun observe_with :: "selector_event list list \<Rightarrow> state \<Rightarrow> action list \<Rightarrow> state list" where
  "observe_with ess s [] = [s]"
| "observe_with ess s (a # as) =
     (if a = Tick
      then s # observe_with (tl ess) (selects s (case ess of [] \<Rightarrow> [] | es # _ \<Rightarrow> es)) as
      else observe_with ess (apply_action a s) as)"

text \<open>What the run itself writes and shows of a state.\<close>

definition run_view :: "state \<Rightarrow> int option \<times> nat \<times> bool \<times> image list" where
  "run_view s = (countdown s, currentPhotoIndex s, isCapturing s, capturedImages s)"

text \<open>
  What the countdown overlay shows (lines 181-190): the photo index and the countdown.
\<close>

definition shown :: "state \<Rightarrow> nat \<times> int option" where
  "shown s = (currentPhotoIndex s, countdown s)"

text \<open>The values returned by the calls of \<open>takePicture\<close>, in call order.\<close>

fun call_of :: "action \<Rightarrow> image option list" where
  "call_of (TakePicture r) = [r]"
| "call_of _ = []"

definition calls :: "action list \<Rightarrow> image option list" where
  "calls tr = concat (map call_of tr)"

text \<open>The content of the local array \<open>images\<close> after a part of a run.\<close>

fun pushed :: "image option \<Rightarrow> image list" where
  "pushed None = []"
| "pushed (Some img) = [img]"

definition results_of :: "action list \<Rightarrow> image list" where
  "results_of tr = concat (map pushed (calls tr))"

text \<open>The values passed to \<open>setCountdown\<close> and to \<open>setCurrentPhotoIndex\<close>, in order.\<close>

fun countdown_write :: "action \<Rightarrow> int option list" where
  "countdown_write (SetCountdown v) = [v]"
| "countdown_write _ = []"

definition countdown_writes :: "action list \<Rightarrow> int option list" where
  "countdown_writes tr = concat (map countdown_write tr)"

fun index_write :: "action \<Rightarrow> nat list" where
  "index_write (SetCurrentPhotoIndex n) = [n]"
| "index_write _ = []"

definition index_writes :: "action list \<Rightarrow> nat list" where
  "index_writes tr = concat (map index_write tr)"

text \<open>
  The part of a run before each call of \<open>takePicture\<close>: what has happened since the
  previous call (or since the start).
\<close>

fun before_captures :: "action list \<Rightarrow> action list \<Rightarrow> action list list" where
  "before_captures seg [] = []"
| "before_captures seg (a # as) =
     (case a of
        TakePicture r \<Rightarrow> seg # before_captures [] as
      | _ \<Rightarrow> before_captures (seg @ [a]) as)"

text \<open>After a write of 0 to the countdown, a capture follows before the next tick.\<close>

fun capture_before_tick :: "action list \<Rightarrow> bool" where
  "capture_before_tick [] = False"
| "capture_before_tick (a # as) =
     (case a of TakePicture r \<Rightarrow> True | Tick \<Rightarrow> False | _ \<Rightarrow> capture_before_tick as)"

fun zero_then_capture :: "action list \<Rightarrow> bool" where
  "zero_then_capture [] = True"
| "zero_then_capture (a # as) =
     ((if a = SetCountdown (Some 0) then capture_before_tick as else True)
      \<and> zero_then_capture as)"

section \<open>Export\<close>







section \<open>Concrete inputs\<close>

text \<open>A page with both elements mounted, the video showing frame \<open>n\<close>.\<close>

definition ready_dom :: "nat \<Rightarrow> dom" where
  "ready_dom n =
     \<lparr>videoRef = Some \<lparr>videoWidth = 1280, videoHeight = 720, pixels = n\<rparr>,
      canvasRef = Some \<lparr>has2d = True\<rparr>\<rparr>"

text \<open>A page with both elements mounted whose canvas yields no 2d context.\<close>

definition no_context_dom :: "nat \<Rightarrow> dom" where
  "no_context_dom n =
     \<lparr>videoRef = Some \<lparr>videoWidth = 1280, videoHeight = 720, pixels = n\<rparr>,
      canvasRef = Some \<lparr>has2d = False\<rparr>\<rparr>"

definition env_ready :: "nat \<Rightarrow> dom" where
  "env_ready i = ready_dom i"

text \<open>The surface is unavailable at the second capture only.\<close>

definition env_second_unavailable :: "nat \<Rightarrow> dom" where
  "env_second_unavailable i = (if i = 1 then no_context_dom i else ready_dom i)"

text \<open>A state in the middle of a run: photo 2 of 2, one second left.\<close>

definition busy_state :: state where
  "busy_state =
     \<lparr>filter_sel = FNone, timer = T3, photoCount = P2, countdown = Some 1,
      capturedImages = [], currentPhotoIndex = 2, isCapturing = True, showFlash = False\<rparr>"

text \<open>Two renders: timer 3 s, two photos, sepia; and timer off, two photos.\<close>

definition timed_closure :: closure where
  "timed_closure = \<lparr>cl_filter = Sepia, cl_timer = T3, cl_photoCount = P2\<rparr>"

definition untimed_closure :: closure where
  "untimed_closure = \<lparr>cl_filter = FNone, cl_timer = Off, cl_photoCount = P2\<rparr>"


text \<open>The page as first shown, with the 3 s timer selected.\<close>

definition timer_state :: state where
  "timer_state = initial_state\<lparr>timer := T3\<rparr>"





section \<open>Basic facts about runs\<close>

declare interval.simps [simp del]
declare captureLoop.simps [simp del]

lemma exec_append: "exec s (xs @ ys) = exec (exec s xs) ys"
  by (induction xs arbitrary: s) auto

lemma observe_not_Nil: "observe s tr \<noteq> []"
  by (induction tr arbitrary: s) auto

lemma last_observe: "last (observe s tr) = exec s tr"
  by (induction tr arbitrary: s) (auto simp: observe_not_Nil)

lemma observe_append:
  "observe s (xs @ ys) = butlast (observe s xs) @ observe (exec s xs) ys"
  by (induction xs arbitrary: s) (auto simp: observe_not_Nil)

lemma exec_interval: "exec s (interval r) = s\<lparr>countdown := None\<rparr>"
proof (induction r arbitrary: s rule: interval.induct)
  case (1 remaining)
  show ?case
  proof (cases "remaining - 1 \<le> 0")
    case True
    then show ?thesis by (subst interval.simps) simp
  next
    case False
    then show ?thesis using "1.IH" [OF False] by (subst interval.simps) simp
  qed
qed

lemma observe_interval:
  "0 < r \<Longrightarrow> countdown s = Some r \<Longrightarrow> x \<in> set (butlast (observe s (interval r))) \<Longrightarrow>
     \<exists>k. 0 < k \<and> x = s\<lparr>countdown := Some k\<rparr>"
proof (induction r arbitrary: s rule: interval.induct)
  case (1 remaining)
  have self: "s = s\<lparr>countdown := Some remaining\<rparr>"
    using "1.prems"(2) by simp
  show ?case
  proof (cases "remaining - 1 \<le> 0")
    case True
    then have "observe s (interval remaining) = [s, s\<lparr>countdown := None\<rparr>]"
      by (subst interval.simps) simp
    with "1.prems" self show ?thesis by auto
  next
    case False
    let ?s' = "s\<lparr>countdown := Some (remaining - 1)\<rparr>"
    have obs: "observe s (interval remaining) = s # observe ?s' (interval (remaining - 1))"
      using False by (subst interval.simps) simp
    from "1.prems"(3) obs
    consider "x = s" | "x \<in> set (butlast (observe ?s' (interval (remaining - 1))))"
      by (auto simp: observe_not_Nil)
    then show ?thesis
    proof cases
      case 1
      with self "1.prems"(1) show ?thesis by blast
    next
      case 2
      from "1.IH" [OF False _ _ 2] False
      obtain k where "0 < k" "x = ?s'\<lparr>countdown := Some k\<rparr>" by auto
      then show ?thesis by auto
    qed
  qed
qed

lemma parseInt_timer_pos: "t \<noteq> Off \<Longrightarrow> 0 < parseInt_timer t"
  by (cases t) auto

lemma exec_wait_timer:
  "exec s (wait_timer t) = (if t \<noteq> Off then s\<lparr>countdown := None\<rparr> else s)"
  by (simp add: wait_timer_def exec_interval)

lemma observe_wait_timer:
  "x \<in> set (butlast (observe s (wait_timer t))) \<Longrightarrow>
     \<exists>k. 0 < k \<and> x = s\<lparr>countdown := Some k\<rparr>"
proof (cases "t = Off")
  case True
  assume "x \<in> set (butlast (observe s (wait_timer t)))"
  with True show ?thesis by (simp add: wait_timer_def)
next
  case False
  assume x: "x \<in> set (butlast (observe s (wait_timer t)))"
  let ?s' = "s\<lparr>countdown := Some (parseInt_timer t)\<rparr>"
  from x False have "x \<in> set (butlast (observe ?s' (interval (parseInt_timer t))))"
    by (simp add: wait_timer_def)
  from observe_interval [OF parseInt_timer_pos [OF False] _ this]
  show ?thesis by auto
qed

lemma takePicture_flash:
  "fst (takePicture f d) = [] \<or> fst (takePicture f d) = [SetShowFlash True]"
  by (simp add: takePicture_def split: option.splits)

lemma observe_flash:
  "observe s (fst (takePicture f d) @ TakePicture r # rest) =
     observe (exec s (fst (takePicture f d))) rest"
  using takePicture_flash [of f d] by auto

lemma exec_flash:
  "exec s (fst (takePicture f d)) = s \<or> exec s (fst (takePicture f d)) = s\<lparr>showFlash := True\<rparr>"
  using takePicture_flash [of f d] by auto

lemma butlast_observe_captureLoop:
  "x \<in> set (butlast (observe s (captureLoop c env count i images))) \<Longrightarrow>
     isCapturing x = isCapturing s \<and> (\<exists>k. 0 < k \<and> countdown x = Some k)
        \<and> i < currentPhotoIndex x \<and> currentPhotoIndex x \<le> count"
proof (induction c env count i images arbitrary: s rule: captureLoop.induct)
  case (1 c env count i images)
  show ?case
  proof (cases "i < count")
    case False
    with "1.prems" show ?thesis by (subst (asm) captureLoop.simps) simp
  next
    case True
    let ?s1 = "s\<lparr>currentPhotoIndex := i + 1\<rparr>"
    let ?s2 = "exec ?s1 (wait_timer (cl_timer c))"
    let ?s3 = "exec ?s2 (fst (takePicture (cl_filter c) (env i)))"
    let ?r = "snd (takePicture (cl_filter c) (env i))"
    let ?rest = "captureLoop c env count (i + 1) (push_image images ?r)"
    have "observe s (captureLoop c env count i images) =
            observe ?s1 (wait_timer (cl_timer c)
              @ (fst (takePicture (cl_filter c) (env i)) @ TakePicture ?r # ?rest))"
      using True by (subst captureLoop.simps) simp
    also have "\<dots> = butlast (observe ?s1 (wait_timer (cl_timer c)))
              @ observe ?s2 (fst (takePicture (cl_filter c) (env i)) @ TakePicture ?r # ?rest)"
      by (rule observe_append)
    also have "\<dots> = butlast (observe ?s1 (wait_timer (cl_timer c))) @ observe ?s3 ?rest"
      by (simp only: observe_flash)
    finally have "butlast (observe s (captureLoop c env count i images)) =
            butlast (observe ?s1 (wait_timer (cl_timer c))) @ butlast (observe ?s3 ?rest)"
      by (simp add: butlast_append observe_not_Nil)
    with "1.prems"
    consider "x \<in> set (butlast (observe ?s1 (wait_timer (cl_timer c))))"
      | "x \<in> set (butlast (observe ?s3 ?rest))"
      by auto
    then show ?thesis
    proof cases
      case 1
      from observe_wait_timer [OF 1] True show ?thesis by auto
    next
      case 2
      have cap: "isCapturing ?s3 = isCapturing s"
        using exec_flash [of ?s2 "cl_filter c" "env i"]
        by (auto simp: exec_wait_timer)
      from "1.IH" [OF True 2] cap show ?thesis by auto
    qed
  qed
qed

lemma push_image_pushed: "push_image images r = images @ pushed r"
  by (cases r) auto

lemma exec_captureLoop:
  "capturedImages (exec s (captureLoop c env count i images)) =
       images @ concat (map (\<lambda>j. pushed (snd (takePicture (cl_filter c) (env j)))) [i..<count])
   \<and> isCapturing (exec s (captureLoop c env count i images)) = False
   \<and> currentPhotoIndex (exec s (captureLoop c env count i images)) = 0
   \<and> countdown (exec s (captureLoop c env count i images)) = None
   \<and> filter_sel (exec s (captureLoop c env count i images)) = filter_sel s
   \<and> timer (exec s (captureLoop c env count i images)) = timer s
   \<and> photoCount (exec s (captureLoop c env count i images)) = photoCount s"
proof (induction c env count i images arbitrary: s rule: captureLoop.induct)
  case (1 c env count i images)
  show ?case
  proof (cases "i < count")
    case False
    then show ?thesis by (subst (1 2 3 4 5 6 7) captureLoop.simps) simp
  next
    case True
    let ?s1 = "s\<lparr>currentPhotoIndex := i + 1\<rparr>"
    let ?s2 = "exec ?s1 (wait_timer (cl_timer c))"
    let ?s3 = "exec ?s2 (fst (takePicture (cl_filter c) (env i)))"
    let ?r = "snd (takePicture (cl_filter c) (env i))"
    let ?rest = "captureLoop c env count (i + 1) (push_image images ?r)"
    have step: "exec s (captureLoop c env count i images) = exec ?s3 ?rest"
      using True by (subst captureLoop.simps) (simp add: exec_append)
    have sel: "filter_sel ?s3 = filter_sel s \<and> timer ?s3 = timer s \<and> photoCount ?s3 = photoCount s"
      using exec_flash [of ?s2 "cl_filter c" "env i"]
      by (auto simp: exec_wait_timer)
    have upt: "[i..<count] = i # [i + 1..<count]"
      using True by (simp add: upt_conv_Cons)
    from "1.IH" [OF True, of ?s3] sel show ?thesis
      unfolding step by (simp add: upt push_image_pushed)
  qed
qed

lemma calls_Nil: "calls [] = []"
  by (simp add: calls_def)

lemma calls_Cons: "calls (a # as) = call_of a @ calls as"
  by (simp add: calls_def)

lemma calls_append: "calls (xs @ ys) = calls xs @ calls ys"
  by (simp add: calls_def)

lemmas calls_simps = calls_Nil calls_Cons calls_append

lemma calls_interval: "calls (interval r) = []"
proof (induction r rule: interval.induct)
  case (1 remaining)
  show ?case
  proof (cases "remaining - 1 \<le> 0")
    case True
    then show ?thesis by (subst interval.simps) (simp add: calls_simps)
  next
    case False
    with "1.IH" show ?thesis by (subst interval.simps) (simp add: calls_simps)
  qed
qed

lemma calls_wait_timer: "calls (wait_timer t) = []"
  by (simp add: wait_timer_def calls_simps calls_interval)

lemma calls_flash: "calls (fst (takePicture f d)) = []"
  using takePicture_flash [of f d] by (auto simp: calls_simps)

lemma calls_captureLoop:
  "calls (captureLoop c env count i images) =
     map (\<lambda>j. snd (takePicture (cl_filter c) (env j))) [i..<count]"
proof (induction c env count i images rule: captureLoop.induct)
  case (1 c env count i images)
  show ?case
  proof (cases "i < count")
    case False
    then show ?thesis by (subst captureLoop.simps) (simp add: calls_simps)
  next
    case True
    let ?r = "snd (takePicture (cl_filter c) (env i))"
    let ?rest = "captureLoop c env count (i + 1) (push_image images ?r)"
    have "calls (captureLoop c env count i images) = ?r # calls ?rest"
      using True
      by (subst captureLoop.simps) (simp add: calls_simps calls_wait_timer calls_flash)
    with "1.IH" [OF True] True show ?thesis
      by (simp add: upt_conv_Cons)
  qed
qed

lemma captureLoop_ends:
  "\<exists>pre imgs. captureLoop c env count i images =
     pre @ [SetCapturedImages imgs, SetIsCapturing False, SetCurrentPhotoIndex 0, SetCountdown None]"
proof (induction c env count i images rule: captureLoop.induct)
  case (1 c env count i images)
  show ?case
  proof (cases "i < count")
    case False
    then have "captureLoop c env count i images =
        [] @ [SetCapturedImages images, SetIsCapturing False, SetCurrentPhotoIndex 0, SetCountdown None]"
      by (subst captureLoop.simps) simp
    then show ?thesis by blast
  next
    case True
    let ?r = "snd (takePicture (cl_filter c) (env i))"
    from "1.IH" [OF True] obtain pre imgs where
      rest: "captureLoop c env count (i + 1) (push_image images ?r) =
        pre @ [SetCapturedImages imgs, SetIsCapturing False, SetCurrentPhotoIndex 0, SetCountdown None]"
      by blast
    have "captureLoop c env count i images =
        (SetCurrentPhotoIndex (i + 1) # wait_timer (cl_timer c)
          @ fst (takePicture (cl_filter c) (env i)) @ TakePicture ?r # pre)
        @ [SetCapturedImages imgs, SetIsCapturing False, SetCurrentPhotoIndex 0, SetCountdown None]"
      using True rest by (subst captureLoop.simps) simp
    then show ?thesis by blast
  qed
qed

lemma countdown_writes_Nil: "countdown_writes [] = []"
  by (simp add: countdown_writes_def)

lemma countdown_writes_Cons: "countdown_writes (a # as) = countdown_write a @ countdown_writes as"
  by (simp add: countdown_writes_def)

lemma countdown_writes_append: "countdown_writes (xs @ ys) = countdown_writes xs @ countdown_writes ys"
  by (simp add: countdown_writes_def)

lemmas countdown_writes_simps = countdown_writes_Nil countdown_writes_Cons countdown_writes_append

lemma rev_upto_int: "0 \<le> n \<Longrightarrow> rev [0..n] = n # rev [0..n - 1]"
  by (simp add: upto_rec2)

lemma countdown_writes_interval:
  "0 < r \<Longrightarrow> countdown_writes (interval r) = map Some (rev [0..r - 1]) @ [None]"
proof (induction r rule: interval.induct)
  case (1 remaining)
  show ?case
  proof (cases "remaining - 1 \<le> 0")
    case True
    with "1.prems" have "remaining - 1 = 0" by simp
    then show ?thesis
      by (subst interval.simps) (simp add: countdown_writes_simps)
  next
    case False
    then have pos: "0 < remaining - 1" by simp
    have "countdown_writes (interval remaining) =
            Some (remaining - 1) # countdown_writes (interval (remaining - 1))"
      using False by (subst interval.simps) (simp add: countdown_writes_simps)
    also have "\<dots> = Some (remaining - 1) # map Some (rev [0..remaining - 1 - 1]) @ [None]"
      using "1.IH" [OF False pos] by simp
    also have "\<dots> = map Some (rev [0..remaining - 1]) @ [None]"
      using pos rev_upto_int [of "remaining - 1"] by simp
    finally show ?thesis .
  qed
qed

lemma countdown_writes_wait_timer:
  "t \<noteq> Off \<Longrightarrow>
     countdown_writes (wait_timer t) = map Some (rev [0..parseInt_timer t]) @ [None]"
  using parseInt_timer_pos [of t] rev_upto_int [of "parseInt_timer t"]
  by (simp add: wait_timer_def countdown_writes_simps countdown_writes_interval)

lemma countdown_writes_flash: "countdown_writes (fst (takePicture f d)) = []"
  using takePicture_flash [of f d] by (auto simp: countdown_writes_simps)

lemma before_captures_append:
  "calls xs = [] \<Longrightarrow>
     before_captures seg (xs @ TakePicture r # ys) = (seg @ xs) # before_captures [] ys"
proof (induction xs arbitrary: seg)
  case Nil
  show ?case by simp
next
  case (Cons a xs)
  from Cons.prems have a: "call_of a = []" and xs: "calls xs = []"
    by (simp_all add: calls_simps)
  from a Cons.IH [OF xs, of "seg @ [a]"] show ?case
    by (cases a) simp_all
qed

lemma before_captures_captureLoop:
  "before_captures seg (captureLoop c env count i images) =
     (if i < count then
        (seg @ SetCurrentPhotoIndex (i + 1) # wait_timer (cl_timer c)
           @ fst (takePicture (cl_filter c) (env i)))
        # before_captures [] (captureLoop c env count (i + 1)
              (push_image images (snd (takePicture (cl_filter c) (env i)))))
      else [])"
proof (cases "i < count")
  case False
  then show ?thesis by (subst captureLoop.simps) simp
next
  case True
  let ?r = "snd (takePicture (cl_filter c) (env i))"
  let ?pre = "SetCurrentPhotoIndex (i + 1) # wait_timer (cl_timer c)
                @ fst (takePicture (cl_filter c) (env i))"
  let ?rest = "captureLoop c env count (i + 1) (push_image images ?r)"
  have split: "captureLoop c env count i images = ?pre @ TakePicture ?r # ?rest"
    using True by (subst captureLoop.simps) simp
  have "calls ?pre = []"
    by (simp add: calls_simps calls_wait_timer calls_flash)
  from before_captures_append [OF this, of seg ?r ?rest] True show ?thesis
    by (simp only: split if_True)
qed

lemma countdowns_captureLoop:
  "cl_timer c \<noteq> Off \<Longrightarrow> countdown_writes seg = [] \<Longrightarrow>
     map countdown_writes (before_captures seg (captureLoop c env count i images)) =
       replicate (count - i) (map Some (rev [0..parseInt_timer (cl_timer c)]) @ [None])"
proof (induction c env count i images arbitrary: seg rule: captureLoop.induct)
  case (1 c env count i images)
  show ?case
  proof (cases "i < count")
    case False
    then show ?thesis by (simp add: before_captures_captureLoop)
  next
    case True
    then have rep: "count - i = Suc (count - (i + 1))" by simp
    have "countdown_writes []  = []" by (simp add: countdown_writes_simps)
    from "1.IH" [OF True "1.prems"(1) this] True "1.prems" show ?thesis
      by (simp add: before_captures_captureLoop [of seg] rep countdown_writes_simps
            countdown_writes_wait_timer countdown_writes_flash)
  qed
qed

lemma countdown_writes_captureLoop:
  "countdown_writes (captureLoop c env count i images) =
     concat (replicate (count - i) (countdown_writes (wait_timer (cl_timer c)))) @ [None]"
proof (induction c env count i images rule: captureLoop.induct)
  case (1 c env count i images)
  show ?case
  proof (cases "i < count")
    case False
    then show ?thesis by (subst captureLoop.simps) (simp add: countdown_writes_simps)
  next
    case True
    then have rep: "count - i = Suc (count - (i + 1))" by simp
    let ?r = "snd (takePicture (cl_filter c) (env i))"
    have "countdown_writes (captureLoop c env count i images) =
        countdown_writes (wait_timer (cl_timer c))
          @ countdown_writes (captureLoop c env count (i + 1) (push_image images ?r))"
      using True
      by (subst captureLoop.simps) (simp add: countdown_writes_simps countdown_writes_flash)
    with "1.IH" [OF True] show ?thesis
      by (simp add: rep)
  qed
qed

lemma countdown_writes_nonneg:
  assumes "Some k \<in> set (countdown_writes (captureLoop c env count i images))"
  shows "0 \<le> k"
proof (cases "cl_timer c = Off")
  case True
  with assms show ?thesis
    by (simp add: countdown_writes_captureLoop wait_timer_def countdown_writes_simps)
next
  case False
  from assms have "Some k \<in> set (countdown_writes (wait_timer (cl_timer c)))"
    by (auto simp: countdown_writes_captureLoop split: if_splits)
  then have "Some k \<in> set (map Some (rev [0..parseInt_timer (cl_timer c)]) @ [None])"
    by (simp only: countdown_writes_wait_timer [OF False])
  then show ?thesis by auto
qed

lemma capture_before_tick_flash:
  "capture_before_tick (fst (takePicture f d) @ TakePicture r # rest)"
  using takePicture_flash [of f d] by auto

lemma zero_then_capture_flash:
  "zero_then_capture (fst (takePicture f d) @ TakePicture r # rest) = zero_then_capture rest"
  using takePicture_flash [of f d] by auto

lemma zero_then_capture_interval:
  "0 < r \<Longrightarrow>
     zero_then_capture (interval r @ ys) = (capture_before_tick ys \<and> zero_then_capture ys)"
proof (induction r rule: interval.induct)
  case (1 remaining)
  show ?case
  proof (cases "remaining - 1 \<le> 0")
    case True
    with "1.prems" have "remaining - 1 = 0" by simp
    then show ?thesis by (subst interval.simps) simp
  next
    case False
    then have pos: "0 < remaining - 1" by simp
    from "1.IH" [OF False pos] False show ?thesis
      by (subst interval.simps) simp
  qed
qed

lemma zero_then_capture_wait_timer:
  "capture_before_tick ys \<Longrightarrow>
     zero_then_capture (wait_timer t @ ys) = zero_then_capture ys"
  using parseInt_timer_pos [of t]
  by (auto simp: wait_timer_def zero_then_capture_interval)

lemma zero_then_capture_captureLoop:
  "zero_then_capture (captureLoop c env count i images)"
proof (induction c env count i images rule: captureLoop.induct)
  case (1 c env count i images)
  show ?case
  proof (cases "i < count")
    case False
    then show ?thesis by (subst captureLoop.simps) simp
  next
    case True
    let ?r = "snd (takePicture (cl_filter c) (env i))"
    let ?rest = "captureLoop c env count (i + 1) (push_image images ?r)"
    let ?tail = "fst (takePicture (cl_filter c) (env i)) @ TakePicture ?r # ?rest"
    have "zero_then_capture (captureLoop c env count i images) =
        zero_then_capture (wait_timer (cl_timer c) @ ?tail)"
      using True by (subst captureLoop.simps) simp
    also have "\<dots> = zero_then_capture ?tail"
      by (rule zero_then_capture_wait_timer) (rule capture_before_tick_flash)
    also have "\<dots> = zero_then_capture ?rest"
      by (rule zero_then_capture_flash)
    finally show ?thesis using "1.IH" [OF True] by simp
  qed
qed

lemma set_observe:
  "set (observe s tr) = set (butlast (observe s tr)) \<union> {exec s tr}"
proof -
  have "observe s tr = butlast (observe s tr) @ [last (observe s tr)]"
    by (simp add: observe_not_Nil)
  then have "set (observe s tr) = set (butlast (observe s tr) @ [last (observe s tr)])"
    by simp
  then show ?thesis by (simp add: last_observe)
qed

lemma index_writes_Nil: "index_writes [] = []"
  by (simp add: index_writes_def)

lemma index_writes_Cons: "index_writes (a # as) = index_write a @ index_writes as"
  by (simp add: index_writes_def)

lemma index_writes_append: "index_writes (xs @ ys) = index_writes xs @ index_writes ys"
  by (simp add: index_writes_def)

lemmas index_writes_simps = index_writes_Nil index_writes_Cons index_writes_append

lemma index_writes_interval: "index_writes (interval r) = []"
proof (induction r rule: interval.induct)
  case (1 remaining)
  show ?case
  proof (cases "remaining - 1 \<le> 0")
    case True
    then show ?thesis by (subst interval.simps) (simp add: index_writes_simps)
  next
    case False
    with "1.IH" show ?thesis by (subst interval.simps) (simp add: index_writes_simps)
  qed
qed

lemma index_writes_wait_timer: "index_writes (wait_timer t) = []"
  by (simp add: wait_timer_def index_writes_simps index_writes_interval)

lemma index_writes_flash: "index_writes (fst (takePicture f d)) = []"
  using takePicture_flash [of f d] by (auto simp: index_writes_simps)

lemma index_writes_captureLoop:
  "index_writes (captureLoop c env count i images) = map Suc [i..<count] @ [0]"
proof (induction c env count i images rule: captureLoop.induct)
  case (1 c env count i images)
  show ?case
  proof (cases "i < count")
    case False
    then show ?thesis by (subst captureLoop.simps) (simp add: index_writes_simps)
  next
    case True
    let ?r = "snd (takePicture (cl_filter c) (env i))"
    have "index_writes (captureLoop c env count i images) =
        Suc i # index_writes (captureLoop c env count (i + 1) (push_image images ?r))"
      using True
      by (subst captureLoop.simps)
         (simp add: index_writes_simps index_writes_wait_timer index_writes_flash)
    with "1.IH" [OF True] True show ?thesis
      by (simp add: upt_conv_Cons)
  qed
qed

lemma length_pushed: "length (concat (map pushed rs)) \<le> length rs"
proof (induction rs)
  case Nil
  show ?case by simp
next
  case (Cons r rs)
  then show ?case by (cases r) auto
qed

lemma length_calls_take: "length (calls (take n tr)) \<le> length (calls tr)"
proof -
  have "calls tr = calls (take n tr) @ calls (drop n tr)"
    by (simp add: calls_append [symmetric])
  then have "length (calls tr) = length (calls (take n tr)) + length (calls (drop n tr))"
    by simp
  then show ?thesis by simp
qed

lemma length_results_prefix: "length (results_of (take n tr)) \<le> length (calls tr)"
  using length_pushed [of "calls (take n tr)"] length_calls_take [of n tr]
  by (simp add: results_of_def)

lemma parseInt_photoCount_range:
  "1 \<le> parseInt_photoCount p \<and> parseInt_photoCount p \<le> 4"
  by (cases p) auto

lemma observe_no_Tick: "Tick \<notin> set tr \<Longrightarrow> observe s tr = [exec s tr]"
  by (induction tr arbitrary: s) auto

lemma Tick_notin_flash: "Tick \<notin> set (fst (takePicture f d))"
  using takePicture_flash [of f d] by auto

lemma Tick_notin_captureLoop:
  "cl_timer c = Off \<Longrightarrow> Tick \<notin> set (captureLoop c env count i images)"
proof (induction c env count i images rule: captureLoop.induct)
  case (1 c env count i images)
  show ?case
  proof (cases "i < count")
    case False
    then show ?thesis by (subst captureLoop.simps) simp
  next
    case True
    from "1.IH" [OF True "1.prems"] "1.prems" True show ?thesis
      by (subst captureLoop.simps) (simp add: wait_timer_def Tick_notin_flash)
  qed
qed

lemma concat_pushed_all:
  "\<forall>r \<in> set rs. \<exists>img. r = Some img \<Longrightarrow> map Some (concat (map pushed rs)) = rs"
proof (induction rs)
  case Nil
  show ?case by simp
next
  case (Cons r rs)
  then obtain img where "r = Some img" by auto
  with Cons show ?case by simp
qed


lemma capturedImages_capturePhoto:
  "capturedImages (exec s (capturePhoto c env)) =
     concat (map pushed (map (\<lambda>i. snd (takePicture (cl_filter c) (env i)))
       [0..<parseInt_photoCount (cl_photoCount c)]))"
  using exec_captureLoop
    [of "s\<lparr>isCapturing := True\<rparr>" c env "parseInt_photoCount (cl_photoCount c)" 0 "[]"]
  by (simp add: capturePhoto_def captureMultiplePhotos_def comp_def)

lemma calls_capturePhoto:
  "calls (capturePhoto c env) =
     map (\<lambda>i. snd (takePicture (cl_filter c) (env i))) [0..<parseInt_photoCount (cl_photoCount c)]"
  by (simp add: capturePhoto_def captureMultiplePhotos_def calls_simps calls_captureLoop)

lemma run_view_selects: "run_view (selects s es) = run_view s"
proof (induction es arbitrary: s)
  case Nil
  show ?case by simp
next
  case (Cons e es)
  have "run_view (select e s) = run_view s"
    by (cases e) (simp_all add: run_view_def)
  with Cons show ?case by simp
qed

lemma run_view_apply_action:
  "run_view s = run_view s' \<Longrightarrow> run_view (apply_action a s) = run_view (apply_action a s')"
  by (cases a) (simp_all add: run_view_def)

lemma run_view_observe_with:
  "run_view s = run_view s' \<Longrightarrow>
     map run_view (observe_with ess s tr) = map run_view (observe s' tr)"
proof (induction tr arbitrary: s s' ess)
  case Nil
  then show ?case by simp
next
  case (Cons a tr)
  show ?case
  proof (cases "a = Tick")
    case True
    let ?es = "case ess of [] \<Rightarrow> [] | es # _ \<Rightarrow> es"
    from Cons.prems have "run_view (selects s ?es) = run_view s'"
      by (simp add: run_view_selects)
    from Cons.IH [OF this, of "tl ess"] Cons.prems True show ?thesis
      by simp
  next
    case False
    from Cons.IH [OF run_view_apply_action [OF Cons.prems, of a], of ess] False show ?thesis
      by simp
  qed
qed

lemma observe_with_not_Nil: "observe_with ess s tr \<noteq> []"
  by (induction tr arbitrary: s ess) auto

lemma capturedImages_last_observe_with:
  "capturedImages (last (observe_with ess s tr)) = capturedImages (exec s tr)"
proof -
  have "run_view (last (observe_with ess s tr)) = last (map run_view (observe_with ess s tr))"
    by (simp add: last_map observe_with_not_Nil)
  also have "\<dots> = last (map run_view (observe s tr))"
    by (simp only: run_view_observe_with [OF refl])
  also have "\<dots> = run_view (exec s tr)"
    by (simp add: last_map observe_not_Nil last_observe)
  finally show ?thesis by (simp add: run_view_def)
qed

lemma image_filter_takePicture:
  "snd (takePicture f d) = Some img \<Longrightarrow> image_filter img = f"
  by (auto simp: takePicture_def split: option.splits if_splits)

lemma set_concat_pushed: "img \<in> set (concat (map pushed rs)) \<Longrightarrow> Some img \<in> set rs"
proof (induction rs)
  case Nil
  then show ?case by simp
next
  case (Cons r rs)
  then show ?case by (cases r) auto
qed






lemma rev_upto_from_1: "1 \<le> n \<Longrightarrow> rev [1..n] = n # rev [1..n - 1]"
  by (simp add: upto_rec2)

lemma shown_interval:
  "0 < r \<Longrightarrow> countdown s = Some r \<Longrightarrow>
     map shown (butlast (observe s (interval r))) =
       map (\<lambda>k. (currentPhotoIndex s, Some k)) (rev [1..r])"
proof (induction r arbitrary: s rule: interval.induct)
  case (1 remaining)
  show ?case
  proof (cases "remaining - 1 \<le> 0")
    case True
    with "1.prems" have one: "remaining = 1" by simp
    have "observe s (interval remaining) = [s, s\<lparr>countdown := None\<rparr>]"
      using True by (subst interval.simps) simp
    with "1.prems"(2) one show ?thesis
      by (simp add: shown_def)
  next
    case False
    then have pos: "0 < remaining - 1" by simp
    let ?s' = "s\<lparr>countdown := Some (remaining - 1)\<rparr>"
    have obs: "observe s (interval remaining) = s # observe ?s' (interval (remaining - 1))"
      using False by (subst interval.simps) simp
    have "map shown (butlast (observe s (interval remaining))) =
        shown s # map shown (butlast (observe ?s' (interval (remaining - 1))))"
      by (simp add: obs observe_not_Nil)
    also have "\<dots> = (currentPhotoIndex s, Some remaining)
        # map (\<lambda>k. (currentPhotoIndex s, Some k)) (rev [1..remaining - 1])"
    proof -
      have head: "shown s = (currentPhotoIndex s, Some remaining)"
        using "1.prems"(2) by (simp add: shown_def)
      have "map shown (butlast (observe ?s' (interval (remaining - 1)))) =
          map (\<lambda>k. (currentPhotoIndex s, Some k)) (rev [1..remaining - 1])"
        using "1.IH" [OF False pos, of ?s'] by simp
      with head show ?thesis by (simp only:)
    qed
    also have "\<dots> = map (\<lambda>k. (currentPhotoIndex s, Some k)) (rev [1..remaining])"
      using pos rev_upto_from_1 [of remaining] by simp
    finally show ?thesis .
  qed
qed

lemma shown_wait_timer:
  "t \<noteq> Off \<Longrightarrow>
     map shown (butlast (observe s (wait_timer t))) =
       map (\<lambda>k. (currentPhotoIndex s, Some k)) (rev [1..parseInt_timer t])"
proof -
  assume on: "t \<noteq> Off"
  let ?s' = "s\<lparr>countdown := Some (parseInt_timer t)\<rparr>"
  have "observe s (wait_timer t) = observe ?s' (interval (parseInt_timer t))"
    using on by (simp add: wait_timer_def)
  with shown_interval [OF parseInt_timer_pos [OF on], of ?s'] show ?thesis
    by simp
qed

lemma butlast_observe_step:
  "i < count \<Longrightarrow>
     butlast (observe s (captureLoop c env count i images)) =
       butlast (observe (s\<lparr>currentPhotoIndex := i + 1\<rparr>) (wait_timer (cl_timer c)))
       @ butlast (observe
           (exec (exec (s\<lparr>currentPhotoIndex := i + 1\<rparr>) (wait_timer (cl_timer c)))
              (fst (takePicture (cl_filter c) (env i))))
           (captureLoop c env count (i + 1)
              (push_image images (snd (takePicture (cl_filter c) (env i))))))"
proof -
  assume True: "i < count"
  let ?s1 = "s\<lparr>currentPhotoIndex := i + 1\<rparr>"
  let ?s2 = "exec ?s1 (wait_timer (cl_timer c))"
  let ?s3 = "exec ?s2 (fst (takePicture (cl_filter c) (env i)))"
  let ?r = "snd (takePicture (cl_filter c) (env i))"
  let ?rest = "captureLoop c env count (i + 1) (push_image images ?r)"
  have "observe s (captureLoop c env count i images) =
          observe ?s1 (wait_timer (cl_timer c)
            @ (fst (takePicture (cl_filter c) (env i)) @ TakePicture ?r # ?rest))"
    using True by (subst captureLoop.simps) simp
  also have "\<dots> = butlast (observe ?s1 (wait_timer (cl_timer c)))
            @ observe ?s2 (fst (takePicture (cl_filter c) (env i)) @ TakePicture ?r # ?rest)"
    by (rule observe_append)
  also have "\<dots> = butlast (observe ?s1 (wait_timer (cl_timer c))) @ observe ?s3 ?rest"
    by (simp only: observe_flash)
  finally show ?thesis
    by (simp add: butlast_append observe_not_Nil)
qed

lemma shown_captureLoop:
  "cl_timer c \<noteq> Off \<Longrightarrow>
     map shown (butlast (observe s (captureLoop c env count i images))) =
       concat (map (\<lambda>j. map (\<lambda>k. (j + 1, Some k)) (rev [1..parseInt_timer (cl_timer c)]))
         [i..<count])"
proof (induction c env count i images arbitrary: s rule: captureLoop.induct)
  case (1 c env count i images)
  show ?case
  proof (cases "i < count")
    case False
    then show ?thesis by (subst captureLoop.simps) simp
  next
    case True
    then have upt: "[i..<count] = i # [i + 1..<count]"
      by (simp add: upt_conv_Cons)
    from butlast_observe_step [OF True, of s c env images]
      shown_wait_timer [OF "1.prems", of "s\<lparr>currentPhotoIndex := i + 1\<rparr>"]
      "1.IH" [OF True "1.prems"]
    show ?thesis
      by (simp add: upt)
  qed
qed

section \<open>The run ends and resets what it shows\<close>

text \<open>
  C10: every run terminates (the trace is a finite list: the loop and the interval are
  total functions), and it ends with the writes of lines 113-116, so that after it
  \<open>isCapturing\<close> is false, \<open>currentPhotoIndex\<close> is 0 and \<open>countdown\<close> is \<open>null\<close>, whatever
  the calls of \<open>takePicture\<close> returned.
\<close>

theorem run_ends_and_resets:
  "isCapturing (exec s (capturePhoto c env)) = False
   \<and> currentPhotoIndex (exec s (capturePhoto c env)) = 0
   \<and> countdown (exec s (capturePhoto c env)) = None
   \<and> last (observe s (capturePhoto c env)) = exec s (capturePhoto c env)
   \<and> (\<exists>pre imgs. capturePhoto c env =
         pre @ [SetCapturedImages imgs, SetIsCapturing False, SetCurrentPhotoIndex 0,
                SetCountdown None])"
proof -
  let ?count = "parseInt_photoCount (cl_photoCount c)"
  have run: "exec s (capturePhoto c env) =
      exec (s\<lparr>isCapturing := True\<rparr>) (captureLoop c env ?count 0 [])"
    by (simp add: capturePhoto_def captureMultiplePhotos_def)
  from captureLoop_ends [of c env ?count 0 "[]"] obtain pre imgs where
    "captureLoop c env ?count 0 [] =
       pre @ [SetCapturedImages imgs, SetIsCapturing False, SetCurrentPhotoIndex 0, SetCountdown None]"
    by blast
  then have "capturePhoto c env = (SetIsCapturing True # pre)
      @ [SetCapturedImages imgs, SetIsCapturing False, SetCurrentPhotoIndex 0, SetCountdown None]"
    by (simp add: capturePhoto_def captureMultiplePhotos_def)
  then have ends: "\<exists>pre imgs. capturePhoto c env =
      pre @ [SetCapturedImages imgs, SetIsCapturing False, SetCurrentPhotoIndex 0, SetCountdown None]"
    by blast
  from exec_captureLoop [of "s\<lparr>isCapturing := True\<rparr>" c env ?count 0 "[]"] ends
  show ?thesis
    by (simp add: run last_observe)
qed

theorem run_ends_and_resets_witness:
  "isCapturing (exec busy_state (capturePhoto (render busy_state) env_second_unavailable)) = False
   \<and> currentPhotoIndex (exec busy_state (capturePhoto (render busy_state) env_second_unavailable)) = 0
   \<and> countdown (exec busy_state (capturePhoto (render busy_state) env_second_unavailable)) = None"
  using run_ends_and_resets [of busy_state "render busy_state" env_second_unavailable] by simp

section \<open>The countdown before each photo\<close>

text \<open>
  A run of two photos with the 3 s timer: the countdown seen at the end of each task is
  3, 2, 1 before each photo and absent at the end; 0 is never seen.
\<close>

theorem countdown_zero_unseen_counterexample:
  "cl_timer timed_closure \<noteq> Off
   \<and> map countdown (observe initial_state (capturePhoto timed_closure env_second_unavailable)) =
       [Some 3, Some 2, Some 1, Some 3, Some 2, Some 1, None]"
proof -
  have tr: "capturePhoto timed_closure env_second_unavailable =
    [SetIsCapturing True, SetCurrentPhotoIndex 1, SetCountdown (Some 3), Tick,
     SetCountdown (Some 2), Tick, SetCountdown (Some 1), Tick,
     SetCountdown (Some 0), SetCountdown None, SetShowFlash True,
     TakePicture (Some (DataURL 1280 720 Sepia 0)), SetCurrentPhotoIndex 2,
     SetCountdown (Some 3), Tick, SetCountdown (Some 2), Tick,
     SetCountdown (Some 1), Tick, SetCountdown (Some 0), SetCountdown None,
     TakePicture None,
     SetCapturedImages [DataURL 1280 720 Sepia 0],
     SetIsCapturing False, SetCurrentPhotoIndex 0, SetCountdown None]"
    by (simp add: capturePhoto_def captureMultiplePhotos_def timed_closure_def
          captureLoop.simps interval.simps wait_timer_def takePicture_def
          env_second_unavailable_def ready_dom_def no_context_dom_def)
  show ?thesis
    unfolding tr by (simp add: timed_closure_def initial_state_def)
qed

text \<open>
  C4 (as amended): in a run with the timer on, each photo is preceded by exactly one
  countdown. The values passed to \<open>setCountdown\<close> between one call of \<open>takePicture\<close> and
  the next (or since the start) are the timer's seconds, then every value down to 0,
  each once, then \<open>null\<close>, and there are as many such parts as requested photos. What is
  seen at the end of the tasks of the run, before its last task ends, is for each photo
  in turn its index together with the timer's seconds, then every value down to 1, each
  once: the 0 is written and replaced in the same task and is never seen. After the run
  the countdown is absent.
\<close>

theorem countdown_before_every_photo:
  "cl_timer c \<noteq> Off \<Longrightarrow>
     map countdown_writes (before_captures [] (capturePhoto c env)) =
       replicate (parseInt_photoCount (cl_photoCount c))
         (map Some (rev [0..parseInt_timer (cl_timer c)]) @ [None])
     \<and> length (before_captures [] (capturePhoto c env)) = parseInt_photoCount (cl_photoCount c)
     \<and> map shown (butlast (observe s (capturePhoto c env))) =
         concat (map (\<lambda>j. map (\<lambda>k. (j + 1, Some k)) (rev [1..parseInt_timer (cl_timer c)]))
           [0..<parseInt_photoCount (cl_photoCount c)])
     \<and> countdown (last (observe s (capturePhoto c env))) = None"
proof -
  assume on: "cl_timer c \<noteq> Off"
  let ?count = "parseInt_photoCount (cl_photoCount c)"
  have start: "before_captures [] (capturePhoto c env) =
      before_captures [SetIsCapturing True] (captureLoop c env ?count 0 [])"
    by (simp add: capturePhoto_def captureMultiplePhotos_def)
  have "countdown_writes [SetIsCapturing True] = []"
    by (simp add: countdown_writes_simps)
  from countdowns_captureLoop [OF on this, of env ?count 0 "[]"]
  have writes: "map countdown_writes (before_captures [] (capturePhoto c env)) =
      replicate ?count (map Some (rev [0..parseInt_timer (cl_timer c)]) @ [None])"
    by (simp add: start)
  have "length (map countdown_writes (before_captures [] (capturePhoto c env))) =
      length (replicate ?count (map Some (rev [0..parseInt_timer (cl_timer c)]) @ [None]))"
    by (simp only: writes)
  then have parts: "length (before_captures [] (capturePhoto c env)) = ?count"
    by simp
  have obs: "observe s (capturePhoto c env) =
      observe (s\<lparr>isCapturing := True\<rparr>) (captureLoop c env ?count 0 [])"
    by (simp add: capturePhoto_def captureMultiplePhotos_def)
  have seen: "map shown (butlast (observe s (capturePhoto c env))) =
      concat (map (\<lambda>j. map (\<lambda>k. (j + 1, Some k)) (rev [1..parseInt_timer (cl_timer c)]))
        [0..<?count])"
    unfolding obs by (rule shown_captureLoop [OF on])
  have after: "countdown (last (observe s (capturePhoto c env))) = None"
    using exec_captureLoop [of "s\<lparr>isCapturing := True\<rparr>" c env ?count 0 "[]"]
    by (simp add: obs last_observe)
  from writes parts seen after show ?thesis by simp
qed

theorem countdown_before_every_photo_witness:
  "cl_timer timed_closure \<noteq> Off
   \<and> map countdown_writes (before_captures [] (capturePhoto timed_closure env_ready)) =
       [[Some 3, Some 2, Some 1, Some 0, None], [Some 3, Some 2, Some 1, Some 0, None]]
   \<and> map shown (butlast (observe initial_state (capturePhoto timed_closure env_ready))) =
       [(1, Some 3), (1, Some 2), (1, Some 1), (2, Some 3), (2, Some 2), (2, Some 1)]
   \<and> countdown (last (observe initial_state (capturePhoto timed_closure env_ready))) = None"
proof -
  have on: "cl_timer timed_closure \<noteq> Off"
    by (simp add: timed_closure_def)
  have down0: "rev [0..parseInt_timer (cl_timer timed_closure)] = [3, 2, 1, 0]"
    by (simp add: timed_closure_def upto.simps)
  have down1: "rev [1..parseInt_timer (cl_timer timed_closure)] = [3, 2, 1]"
    by (simp add: timed_closure_def upto.simps)
  have count: "[0..<parseInt_photoCount (cl_photoCount timed_closure)] = [0, 1]"
    by (simp add: timed_closure_def upt_conv_Cons)
  have two: "parseInt_photoCount (cl_photoCount timed_closure) = Suc (Suc 0)"
    by (simp add: timed_closure_def)
  from countdown_before_every_photo [OF on, of env_ready initial_state] on show ?thesis
    unfolding down0 down1 count two by simp
qed

section \<open>The end of a countdown\<close>

text \<open>
  C5: at the end of every task of a run the countdown is either absent or positive, so
  the value 0 is never left standing when a tick ends; no negative value is ever passed
  to \<open>setCountdown\<close>; and after every write of 0 the call of \<open>takePicture\<close> follows before
  the next tick, that is, within the task of the tick that wrote it.
\<close>

theorem zero_is_never_shown:
  "(\<forall>x \<in> set (observe s (capturePhoto c env)).
       countdown x = None \<or> (\<exists>k. 0 < k \<and> countdown x = Some k))
   \<and> (\<forall>k. Some k \<in> set (countdown_writes (capturePhoto c env)) \<longrightarrow> 0 \<le> k)
   \<and> zero_then_capture (capturePhoto c env)"
proof -
  let ?count = "parseInt_photoCount (cl_photoCount c)"
  let ?s = "s\<lparr>isCapturing := True\<rparr>"
  have obs: "observe s (capturePhoto c env) = observe ?s (captureLoop c env ?count 0 [])"
    by (simp add: capturePhoto_def captureMultiplePhotos_def)
  have shown: "countdown x = None \<or> (\<exists>k. 0 < k \<and> countdown x = Some k)"
    if "x \<in> set (observe s (capturePhoto c env))" for x
  proof -
    from that consider "x \<in> set (butlast (observe ?s (captureLoop c env ?count 0 [])))"
      | "x = exec ?s (captureLoop c env ?count 0 [])"
      unfolding obs using set_observe [of ?s "captureLoop c env ?count 0 []"] by auto
    then show ?thesis
    proof cases
      case 1
      from butlast_observe_captureLoop [OF 1] show ?thesis by blast
    next
      case 2
      with exec_captureLoop [of ?s c env ?count 0 "[]"] show ?thesis by simp
    qed
  qed
  have writes: "0 \<le> k" if "Some k \<in> set (countdown_writes (capturePhoto c env))" for k
  proof -
    from that have "Some k \<in> set (countdown_writes (captureLoop c env ?count 0 []))"
      by (simp add: capturePhoto_def captureMultiplePhotos_def countdown_writes_simps)
    then show ?thesis by (rule countdown_writes_nonneg)
  qed
  have "zero_then_capture (capturePhoto c env)"
    using zero_then_capture_captureLoop [of c env ?count 0 "[]"]
    by (simp add: capturePhoto_def captureMultiplePhotos_def)
  with shown writes show ?thesis by blast
qed

theorem zero_is_never_shown_witness:
  "map countdown (observe initial_state (capturePhoto timed_closure env_ready)) =
     [Some 3, Some 2, Some 1, Some 3, Some 2, Some 1, None]
   \<and> Some 0 \<in> set (countdown_writes (capturePhoto timed_closure env_ready))
   \<and> zero_then_capture (capturePhoto timed_closure env_ready)"
proof -
  have tr: "capturePhoto timed_closure env_ready =
    [SetIsCapturing True, SetCurrentPhotoIndex 1, SetCountdown (Some 3), Tick,
     SetCountdown (Some 2), Tick, SetCountdown (Some 1), Tick,
     SetCountdown (Some 0), SetCountdown None, SetShowFlash True,
     TakePicture (Some (DataURL 1280 720 Sepia 0)), SetCurrentPhotoIndex 2,
     SetCountdown (Some 3), Tick, SetCountdown (Some 2), Tick,
     SetCountdown (Some 1), Tick, SetCountdown (Some 0), SetCountdown None,
     SetShowFlash True, TakePicture (Some (DataURL 1280 720 Sepia 1)),
     SetCapturedImages [DataURL 1280 720 Sepia 0, DataURL 1280 720 Sepia 1],
     SetIsCapturing False, SetCurrentPhotoIndex 0, SetCountdown None]"
    by (simp add: capturePhoto_def captureMultiplePhotos_def timed_closure_def
          captureLoop.simps interval.simps wait_timer_def takePicture_def env_ready_def
          ready_dom_def)
  have "Some 0 \<in> set (countdown_writes (capturePhoto timed_closure env_ready))"
    by (simp add: tr countdown_writes_simps)
  moreover have "map countdown (observe initial_state (capturePhoto timed_closure env_ready)) =
     [Some 3, Some 2, Some 1, Some 3, Some 2, Some 1, None]"
    by (simp add: tr initial_state_def)
  ultimately show ?thesis
    using zero_is_never_shown [of initial_state timed_closure env_ready] by blast
qed

section \<open>The photo index and the number of results\<close>

text \<open>
  C7: the values written to \<open>currentPhotoIndex\<close> during a run are 1, 2, ..., the requested
  count, each one more than the one before, followed by the final reset to 0; in every
  state that can be seen while the run is active (before its last task ends)
  \<open>isCapturing\<close> holds and the index lies between 1 and the requested count; and at no
  point of the run does the array \<open>images\<close> hold more entries than the requested count
  (\<open>results_of\<close> of a part of the run is the array after that part, and of the whole run
  it is the batch handed over).
\<close>

theorem index_invariant:
  "index_writes (capturePhoto c env) = map Suc [0..<parseInt_photoCount (cl_photoCount c)] @ [0]
   \<and> (\<forall>x \<in> set (butlast (observe s (capturePhoto c env))).
         isCapturing x \<and> 1 \<le> currentPhotoIndex x
         \<and> currentPhotoIndex x \<le> parseInt_photoCount (cl_photoCount c))
   \<and> (\<forall>n. length (results_of (take n (capturePhoto c env)))
            \<le> parseInt_photoCount (cl_photoCount c))
   \<and> capturedImages (exec s (capturePhoto c env)) = results_of (capturePhoto c env)"
proof -
  let ?count = "parseInt_photoCount (cl_photoCount c)"
  let ?s = "s\<lparr>isCapturing := True\<rparr>"
  have tr: "capturePhoto c env = SetIsCapturing True # captureLoop c env ?count 0 []"
    by (simp add: capturePhoto_def captureMultiplePhotos_def)
  have writes: "index_writes (capturePhoto c env) = map Suc [0..<?count] @ [0]"
    by (simp add: tr index_writes_simps index_writes_captureLoop)
  have active: "isCapturing x \<and> 1 \<le> currentPhotoIndex x \<and> currentPhotoIndex x \<le> ?count"
    if "x \<in> set (butlast (observe s (capturePhoto c env)))" for x
  proof -
    from that have "x \<in> set (butlast (observe ?s (captureLoop c env ?count 0 [])))"
      by (simp add: tr)
    from butlast_observe_captureLoop [OF this] show ?thesis by auto
  qed
  have "length (calls (capturePhoto c env)) = ?count"
    by (simp add: tr calls_simps calls_captureLoop)
  with length_results_prefix [of _ "capturePhoto c env"]
  have results: "length (results_of (take n (capturePhoto c env))) \<le> ?count" for n
    by simp
  have handed: "capturedImages (exec s (capturePhoto c env)) = results_of (capturePhoto c env)"
    by (simp only: capturedImages_capturePhoto results_of_def calls_capturePhoto)
  from writes active results handed show ?thesis by blast
qed

theorem index_invariant_witness:
  "map currentPhotoIndex (butlast (observe initial_state (capturePhoto timed_closure env_ready))) =
     [1, 1, 1, 2, 2, 2]
   \<and> index_writes (capturePhoto timed_closure env_ready) = [1, 2, 0]
   \<and> length (results_of (take 12 (capturePhoto timed_closure env_ready))) \<le> 2"
proof -
  have tr: "capturePhoto timed_closure env_ready =
    [SetIsCapturing True, SetCurrentPhotoIndex 1, SetCountdown (Some 3), Tick,
     SetCountdown (Some 2), Tick, SetCountdown (Some 1), Tick,
     SetCountdown (Some 0), SetCountdown None, SetShowFlash True,
     TakePicture (Some (DataURL 1280 720 Sepia 0)), SetCurrentPhotoIndex 2,
     SetCountdown (Some 3), Tick, SetCountdown (Some 2), Tick,
     SetCountdown (Some 1), Tick, SetCountdown (Some 0), SetCountdown None,
     SetShowFlash True, TakePicture (Some (DataURL 1280 720 Sepia 1)),
     SetCapturedImages [DataURL 1280 720 Sepia 0, DataURL 1280 720 Sepia 1],
     SetIsCapturing False, SetCurrentPhotoIndex 0, SetCountdown None]"
    by (simp add: capturePhoto_def captureMultiplePhotos_def timed_closure_def
          captureLoop.simps interval.simps wait_timer_def takePicture_def env_ready_def
          ready_dom_def)
  have obs: "map currentPhotoIndex
       (butlast (observe initial_state (capturePhoto timed_closure env_ready))) =
     [1, 1, 1, 2, 2, 2]"
    by (simp add: tr initial_state_def)
  have count: "parseInt_photoCount (cl_photoCount timed_closure) = 2"
    by (simp add: timed_closure_def)
  from index_invariant [of timed_closure env_ready initial_state]
  have "index_writes (capturePhoto timed_closure env_ready) = [1, 2, 0]"
    and "length (results_of (take 12 (capturePhoto timed_closure env_ready))) \<le> 2"
    unfolding count by (simp_all add: upt_conv_Cons)
  with obs show ?thesis by simp
qed

section \<open>A run with the timer off\<close>

text \<open>
  C6: in a run with the timer off there is no tick, so the whole run is one task and
  nothing lies between two captures; the only value ever passed to \<open>setCountdown\<close> is the
  \<open>null\<close> of the final reset, so no number of remaining seconds is set; and all requested
  calls of \<open>takePicture\<close> are made.
\<close>

theorem timer_off_no_countdown:
  "cl_timer c = Off \<Longrightarrow>
     Tick \<notin> set (capturePhoto c env)
     \<and> countdown_writes (capturePhoto c env) = [None]
     \<and> observe s (capturePhoto c env) = [exec s (capturePhoto c env)]
     \<and> length (calls (capturePhoto c env)) = parseInt_photoCount (cl_photoCount c)"
proof -
  assume off: "cl_timer c = Off"
  let ?count = "parseInt_photoCount (cl_photoCount c)"
  have tr: "capturePhoto c env = SetIsCapturing True # captureLoop c env ?count 0 []"
    by (simp add: capturePhoto_def captureMultiplePhotos_def)
  have no_tick: "Tick \<notin> set (capturePhoto c env)"
    using Tick_notin_captureLoop [OF off, of env ?count 0 "[]"] by (simp add: tr)
  have writes: "countdown_writes (capturePhoto c env) = [None]"
    using off
    by (simp add: tr countdown_writes_simps countdown_writes_captureLoop wait_timer_def)
  have calls: "length (calls (capturePhoto c env)) = ?count"
    by (simp add: tr calls_simps calls_captureLoop)
  from no_tick writes calls observe_no_Tick [OF no_tick, of s] show ?thesis
    by simp
qed

theorem timer_off_no_countdown_witness:
  "cl_timer untimed_closure = Off
   \<and> capturePhoto untimed_closure env_ready =
      [SetIsCapturing True, SetCurrentPhotoIndex 1, SetShowFlash True,
       TakePicture (Some (DataURL 1280 720 FNone 0)), SetCurrentPhotoIndex 2,
       SetShowFlash True, TakePicture (Some (DataURL 1280 720 FNone 1)),
       SetCapturedImages [DataURL 1280 720 FNone 0, DataURL 1280 720 FNone 1],
       SetIsCapturing False, SetCurrentPhotoIndex 0, SetCountdown None]
   \<and> countdown_writes (capturePhoto untimed_closure env_ready) = [None]
   \<and> length (observe initial_state (capturePhoto untimed_closure env_ready)) = 1"
proof -
  have off: "cl_timer untimed_closure = Off"
    by (simp add: untimed_closure_def)
  have tr: "capturePhoto untimed_closure env_ready =
      [SetIsCapturing True, SetCurrentPhotoIndex 1, SetShowFlash True,
       TakePicture (Some (DataURL 1280 720 FNone 0)), SetCurrentPhotoIndex 2,
       SetShowFlash True, TakePicture (Some (DataURL 1280 720 FNone 1)),
       SetCapturedImages [DataURL 1280 720 FNone 0, DataURL 1280 720 FNone 1],
       SetIsCapturing False, SetCurrentPhotoIndex 0, SetCountdown None]"
    by (simp add: capturePhoto_def captureMultiplePhotos_def untimed_closure_def
          captureLoop.simps wait_timer_def takePicture_def env_ready_def ready_dom_def)
  from timer_off_no_countdown [OF off, of env_ready initial_state]
  have "countdown_writes (capturePhoto untimed_closure env_ready) = [None]"
    and "length (observe initial_state (capturePhoto untimed_closure env_ready)) = 1"
    by simp_all
  with off tr show ?thesis by simp
qed

section \<open>The batch of a run\<close>

text \<open>
  A run of two photos with the timer off in which the second call of \<open>takePicture\<close> gets
  no 2d context: the run goes to its end and hands over a batch of one image.
\<close>

theorem batch_partial_counterexample:
  "length (capturedImages (exec initial_state (capturePhoto untimed_closure env_second_unavailable))) = 1
   \<and> parseInt_photoCount (cl_photoCount untimed_closure) = 2"
  by (simp add: capturePhoto_def captureMultiplePhotos_def untimed_closure_def
        captureLoop.simps wait_timer_def takePicture_def env_second_unavailable_def ready_dom_def
        no_context_dom_def initial_state_def)

text \<open>
  C1 (as amended): the batch handed over at the end of a run holds the images returned
  by the successful calls of \<open>takePicture\<close>, in call order, so never more than the
  requested count; when every call of the run returns an image, the batch has exactly
  the requested count of images and its image at position \<open>i\<close> is the one returned by
  the call for photo \<open>i + 1\<close>.
\<close>

theorem batch_in_capture_order:
  "map Some (capturedImages (exec s (capturePhoto c env))) =
       filter (\<lambda>r. r \<noteq> None) (calls (capturePhoto c env))
   \<and> length (capturedImages (exec s (capturePhoto c env))) \<le> parseInt_photoCount (cl_photoCount c)
   \<and> ((\<forall>i < parseInt_photoCount (cl_photoCount c).
          \<exists>img. snd (takePicture (cl_filter c) (env i)) = Some img) \<longrightarrow>
        length (capturedImages (exec s (capturePhoto c env))) = parseInt_photoCount (cl_photoCount c)
        \<and> (\<forall>i < parseInt_photoCount (cl_photoCount c).
              Some (capturedImages (exec s (capturePhoto c env)) ! i) =
                snd (takePicture (cl_filter c) (env i))))"
proof -
  let ?count = "parseInt_photoCount (cl_photoCount c)"
  let ?rs = "map (\<lambda>i. snd (takePicture (cl_filter c) (env i))) [0..<?count]"
  let ?batch = "capturedImages (exec s (capturePhoto c env))"
  have batch: "?batch = concat (map pushed ?rs)"
    by (rule capturedImages_capturePhoto)
  have some: "map Some (concat (map pushed rs)) = filter (\<lambda>r. r \<noteq> None) rs"
    for rs :: "image option list"
  proof (induction rs)
    case Nil
    show ?case by simp
  next
    case (Cons r rs)
    then show ?case by (cases r) auto
  qed
  have order: "map Some ?batch = filter (\<lambda>r. r \<noteq> None) (calls (capturePhoto c env))"
    unfolding batch calls_capturePhoto by (rule some)
  have bound: "length ?batch \<le> ?count"
    unfolding batch using length_pushed [of ?rs] by simp
  have full: "length ?batch = ?count
      \<and> (\<forall>i < ?count. Some (?batch ! i) = snd (takePicture (cl_filter c) (env i)))"
    if ready: "\<forall>i < ?count. \<exists>img. snd (takePicture (cl_filter c) (env i)) = Some img"
  proof -
    from ready have "\<forall>r \<in> set ?rs. \<exists>img. r = Some img" by auto
    from concat_pushed_all [OF this] have eq: "map Some ?batch = ?rs"
      unfolding batch .
    then have "length (map Some ?batch) = length ?rs" by (simp only:)
    then have len: "length ?batch = ?count" by simp
    have "Some (?batch ! i) = snd (takePicture (cl_filter c) (env i))" if "i < ?count" for i
    proof -
      from that len have "Some (?batch ! i) = map Some ?batch ! i" by simp
      also have "\<dots> = ?rs ! i" by (simp only: eq)
      also have "\<dots> = snd (takePicture (cl_filter c) (env i))" using that by simp
      finally show ?thesis .
    qed
    with len show ?thesis by blast
  qed
  from order bound full show ?thesis by blast
qed

theorem batch_in_capture_order_witness:
  "snd (takePicture (cl_filter untimed_closure) (env_ready 0)) = Some (DataURL 1280 720 FNone 0)
   \<and> snd (takePicture (cl_filter untimed_closure) (env_ready 1)) = Some (DataURL 1280 720 FNone 1)
   \<and> capturedImages (exec initial_state (capturePhoto untimed_closure env_ready)) =
       [DataURL 1280 720 FNone 0, DataURL 1280 720 FNone 1]
   \<and> length (capturedImages (exec initial_state (capturePhoto untimed_closure env_ready))) =
       parseInt_photoCount (cl_photoCount untimed_closure)"
proof -
  have first: "snd (takePicture (cl_filter untimed_closure) (env_ready 0)) =
      Some (DataURL 1280 720 FNone 0)"
    by (simp add: takePicture_def env_ready_def ready_dom_def untimed_closure_def)
  have second: "snd (takePicture (cl_filter untimed_closure) (env_ready 1)) =
      Some (DataURL 1280 720 FNone 1)"
    by (simp add: takePicture_def env_ready_def ready_dom_def untimed_closure_def)
  have ready: "\<forall>i < parseInt_photoCount (cl_photoCount untimed_closure).
       \<exists>img. snd (takePicture (cl_filter untimed_closure) (env_ready i)) = Some img"
    by (simp add: takePicture_def env_ready_def ready_dom_def)
  have batch: "capturedImages (exec initial_state (capturePhoto untimed_closure env_ready)) =
       [DataURL 1280 720 FNone 0, DataURL 1280 720 FNone 1]"
    by (simp add: capturePhoto_def captureMultiplePhotos_def untimed_closure_def
          captureLoop.simps wait_timer_def takePicture_def env_ready_def ready_dom_def
          initial_state_def)
  from batch_in_capture_order [of initial_state untimed_closure env_ready] ready
  have "length (capturedImages (exec initial_state (capturePhoto untimed_closure env_ready))) =
       parseInt_photoCount (cl_photoCount untimed_closure)"
    by blast
  with first second batch show ?thesis by blast
qed

section \<open>A capture that fails\<close>




section \<open>Starting a run while one is active\<close>

text \<open>
  \<open>capturePhoto\<close> called in the middle of a run (photo 2 of 2, one second left): it
  starts over with photo 1 and a fresh countdown, and goes on to take two more pictures.
\<close>

theorem capturePhoto_unguarded_counterexample:
  "isCapturing busy_state
   \<and> currentPhotoIndex busy_state = 2 \<and> countdown busy_state = Some 1
   \<and> currentPhotoIndex (hd (observe busy_state (capturePhoto (render busy_state) env_ready))) = 1
   \<and> countdown (hd (observe busy_state (capturePhoto (render busy_state) env_ready))) = Some 3
   \<and> length (calls (capturePhoto (render busy_state) env_ready)) = 2"
proof -
  have state: "isCapturing busy_state \<and> currentPhotoIndex busy_state = 2
      \<and> countdown busy_state = Some 1"
    by (simp add: busy_state_def)
  have first: "hd (observe busy_state (capturePhoto (render busy_state) env_ready)) =
      busy_state\<lparr>isCapturing := True, currentPhotoIndex := 1, countdown := Some 3\<rparr>"
    by (simp add: capturePhoto_def captureMultiplePhotos_def busy_state_def render_def
          captureLoop.simps [of _ _ _ 0] wait_timer_def interval.simps [of 3])
  have "length (calls (capturePhoto (render busy_state) env_ready)) = 2"
    by (simp add: calls_capturePhoto busy_state_def render_def)
  with state first show ?thesis by simp
qed

text \<open>
  C2 (as amended): \<open>capturePhoto\<close> has no guard and signals no condition; what keeps a
  second run from starting is the capture button, which is disabled while \<open>isCapturing\<close>
  holds. So a click on the button in a state with \<open>isCapturing\<close> runs nothing and leaves
  the state as it is, and \<open>isCapturing\<close> holds in every state that can be seen between the
  click that starts a run and the end of that run's last task.
\<close>

theorem button_disabled_during_run:
  "(isCapturing s \<longrightarrow>
      capture_button env' s = [] \<and> exec s (capture_button env' s) = s)
   \<and> (\<forall>x \<in> set (butlast (observe s (capture_button env s))).
         isCapturing x \<and> capture_button env' x = [])"
proof -
  have idle: "capture_button env' s = [] \<and> exec s (capture_button env' s) = s"
    if "isCapturing s"
    using that by (simp add: capture_button_def)
  have busy: "isCapturing x \<and> capture_button env' x = []"
    if x: "x \<in> set (butlast (observe s (capture_button env s)))" for x
  proof (cases "capturedImages s = [] \<and> \<not> isCapturing s")
    case False
    then have "capture_button env s = []" by (auto simp: capture_button_def)
    with x show ?thesis by simp
  next
    case True
    let ?c = "render s"
    let ?count = "parseInt_photoCount (cl_photoCount ?c)"
    from True x have "x \<in> set (butlast (observe (s\<lparr>isCapturing := True\<rparr>)
        (captureLoop ?c env ?count 0 [])))"
      by (simp add: capture_button_def capturePhoto_def captureMultiplePhotos_def)
    from butlast_observe_captureLoop [OF this] have "isCapturing x" by simp
    then show ?thesis by (simp add: capture_button_def)
  qed
  from idle busy show ?thesis by blast
qed

theorem button_disabled_during_run_witness:
  "isCapturing busy_state
   \<and> capture_button env_ready busy_state = []
   \<and> map isCapturing (butlast (observe timer_state (capture_button env_ready timer_state))) =
        [True, True, True]
   \<and> capture_button env_ready (hd (observe timer_state (capture_button env_ready timer_state))) = []"
proof -
  have busy: "isCapturing busy_state"
    by (simp add: busy_state_def)
  have tr: "capture_button env_ready timer_state =
    [SetIsCapturing True, SetCurrentPhotoIndex 1, SetCountdown (Some 3), Tick,
     SetCountdown (Some 2), Tick, SetCountdown (Some 1), Tick,
     SetCountdown (Some 0), SetCountdown None, SetShowFlash True,
     TakePicture (Some (DataURL 1280 720 FNone 0)),
     SetCapturedImages [DataURL 1280 720 FNone 0],
     SetIsCapturing False, SetCurrentPhotoIndex 0, SetCountdown None]"
    by (simp add: capture_button_def timer_state_def initial_state_def render_def
          capturePhoto_def captureMultiplePhotos_def captureLoop.simps interval.simps
          wait_timer_def takePicture_def env_ready_def ready_dom_def)
  have seen: "map isCapturing (butlast (observe timer_state (capture_button env_ready timer_state))) =
      [True, True, True]"
    unfolding tr by simp
  have first: "hd (observe timer_state (capture_button env_ready timer_state))
      \<in> set (butlast (observe timer_state (capture_button env_ready timer_state)))"
    unfolding tr by simp
  from button_disabled_during_run [where s = busy_state and env' = env_ready] busy
  have none: "capture_button env_ready busy_state = []"
    by blast
  from button_disabled_during_run
    [where s = timer_state and env = env_ready and env' = env_ready] first
  have "capture_button env_ready
      (hd (observe timer_state (capture_button env_ready timer_state))) = []"
    by blast
  with busy none seen show ?thesis by blast
qed

section \<open>Selector changes during a run\<close>

text \<open>
  C8: a run uses the selector values of the render in which the button was clicked.
  Whatever selections are made between the tasks of the run, every state seen shows the
  same countdown, photo index, capturing flag and batch as without them; the number of
  calls of \<open>takePicture\<close> is the photo count at the click; with the timer on at the click,
  the countdown before each photo starts from the timer value at the click; and every
  image of the batch was drawn through the filter selected at the click.
\<close>

theorem selectors_read_at_click:
  "map run_view (observe_with ess s (capturePhoto (render s) env)) =
       map run_view (observe s (capturePhoto (render s) env))
   \<and> length (calls (capturePhoto (render s) env)) = parseInt_photoCount (photoCount s)
   \<and> (timer s \<noteq> Off \<longrightarrow>
        map countdown_writes (before_captures [] (capturePhoto (render s) env)) =
          replicate (parseInt_photoCount (photoCount s))
            (map Some (rev [0..parseInt_timer (timer s)]) @ [None]))
   \<and> (\<forall>img \<in> set (capturedImages (last (observe_with ess s (capturePhoto (render s) env)))).
         image_filter img = filter_sel s)"
proof -
  let ?c = "render s"
  let ?count = "parseInt_photoCount (photoCount s)"
  let ?tr = "capturePhoto ?c env"
  have c: "cl_filter ?c = filter_sel s" "cl_timer ?c = timer s" "cl_photoCount ?c = photoCount s"
    by (simp_all add: render_def)
  have view: "map run_view (observe_with ess s ?tr) = map run_view (observe s ?tr)"
    by (rule run_view_observe_with) simp
  have calls: "length (calls ?tr) = ?count"
    by (simp add: calls_capturePhoto c)
  have timed: "map countdown_writes (before_captures [] ?tr) =
      replicate ?count (map Some (rev [0..parseInt_timer (timer s)]) @ [None])"
    if on: "timer s \<noteq> Off"
  proof -
    have "countdown_writes [SetIsCapturing True] = []"
      by (simp add: countdown_writes_simps)
    from countdowns_captureLoop [of ?c "[SetIsCapturing True]" env ?count 0 "[]"] on this
    show ?thesis
      by (simp add: capturePhoto_def captureMultiplePhotos_def c)
  qed
  have filtered: "image_filter img = filter_sel s"
    if "img \<in> set (capturedImages (last (observe_with ess s ?tr)))" for img
  proof -
    from that have "img \<in> set (concat (map pushed
        (map (\<lambda>i. snd (takePicture (filter_sel s) (env i))) [0..<?count])))"
      by (simp add: capturedImages_last_observe_with capturedImages_capturePhoto c)
    from set_concat_pushed [OF this] obtain i
      where "snd (takePicture (filter_sel s) (env i)) = Some img"
      by auto
    then show ?thesis by (rule image_filter_takePicture)
  qed
  from view calls timed filtered show ?thesis by blast
qed

theorem selectors_read_at_click_witness:
  "observe_with [[SelectFilter Sepia], [SelectTimer T10, SelectPhotoCount P4]] timer_state
       (capturePhoto (render timer_state) env_ready) =
     [timer_state\<lparr>isCapturing := True, currentPhotoIndex := 1, countdown := Some 3\<rparr>,
      timer_state\<lparr>filter_sel := Sepia, isCapturing := True, currentPhotoIndex := 1,
        countdown := Some 2\<rparr>,
      timer_state\<lparr>filter_sel := Sepia, timer := T10, photoCount := P4, isCapturing := True,
        currentPhotoIndex := 1, countdown := Some 1\<rparr>,
      timer_state\<lparr>filter_sel := Sepia, timer := T10, photoCount := P4, isCapturing := False,
        currentPhotoIndex := 0, countdown := None, showFlash := True,
        capturedImages := [DataURL 1280 720 FNone 0]\<rparr>]
   \<and> map run_view (observe_with [[SelectFilter Sepia], [SelectTimer T10, SelectPhotoCount P4]]
         timer_state (capturePhoto (render timer_state) env_ready)) =
       map run_view (observe timer_state (capturePhoto (render timer_state) env_ready))
   \<and> length (calls (capturePhoto (render timer_state) env_ready)) = 1"
proof -
  have tr: "capturePhoto (render timer_state) env_ready =
    [SetIsCapturing True, SetCurrentPhotoIndex 1, SetCountdown (Some 3), Tick,
     SetCountdown (Some 2), Tick, SetCountdown (Some 1), Tick,
     SetCountdown (Some 0), SetCountdown None, SetShowFlash True,
     TakePicture (Some (DataURL 1280 720 FNone 0)),
     SetCapturedImages [DataURL 1280 720 FNone 0],
     SetIsCapturing False, SetCurrentPhotoIndex 0, SetCountdown None]"
    by (simp add: timer_state_def initial_state_def render_def
          capturePhoto_def captureMultiplePhotos_def captureLoop.simps interval.simps
          wait_timer_def takePicture_def env_ready_def ready_dom_def)
  have seen: "observe_with [[SelectFilter Sepia], [SelectTimer T10, SelectPhotoCount P4]]
       timer_state (capturePhoto (render timer_state) env_ready) =
     [timer_state\<lparr>isCapturing := True, currentPhotoIndex := 1, countdown := Some 3\<rparr>,
      timer_state\<lparr>filter_sel := Sepia, isCapturing := True, currentPhotoIndex := 1,
        countdown := Some 2\<rparr>,
      timer_state\<lparr>filter_sel := Sepia, timer := T10, photoCount := P4, isCapturing := True,
        currentPhotoIndex := 1, countdown := Some 1\<rparr>,
      timer_state\<lparr>filter_sel := Sepia, timer := T10, photoCount := P4, isCapturing := False,
        currentPhotoIndex := 0, countdown := None, showFlash := True,
        capturedImages := [DataURL 1280 720 FNone 0]\<rparr>]"
    unfolding tr by (simp add: timer_state_def initial_state_def)
  have count: "parseInt_photoCount (photoCount timer_state) = 1"
    by (simp add: timer_state_def initial_state_def)
  from selectors_read_at_click
    [of "[[SelectFilter Sepia], [SelectTimer T10, SelectPhotoCount P4]]" timer_state env_ready]
    seen count
  show ?thesis by simp
qed

section \<open>Exporting the batch\<close>



end
